theory Spec2Isabelle
  imports Complex_Main
begin

section \<open>The serial decoder of decode-serial.py\<close>

text \<open>
  The decoder reads a change-based waveform (timestamp and level pairs), walks it with a
  forward-only cursor and recognises UART frames.

  Timestamps are Python floats in the source. Every finite float is a rational number, so
  timestamps and durations are values of type \<open>rat\<close> here, and sums, differences and
  comparisons are exact: the rounding of 64-bit floating point, its infinities and NaN are
  outside this development. Levels and decoded bytes are Python integers, hence \<open>int\<close>.

  Every exception the source can raise is a value of \<open>error\<close>; an operation that may raise
  returns \<open>error + 'a\<close>, with \<open>Inl\<close> for the exception.
\<close>

datatype error =
    AssertionError
  | AttributeError
  | IndexError
  | ZeroDivisionError
  | ChannelCursorOutOfRangeException

definition bind :: "error + 'a \<Rightarrow> ('a \<Rightarrow> error + 'b) \<Rightarrow> error + 'b" where
  "bind m f = (case m of Inl e \<Rightarrow> Inl e | Inr x \<Rightarrow> f x)"

type_synonym entry = "rat \<times> int"

subsection \<open>Channel\<close>

text \<open>
  A channel object has a name and its entries. \<open>finishAdding\<close> replaces the list of
  entries by a tuple; \<open>frozen\<close> records that this has happened, since a tuple has no
  \<open>append\<close>.
\<close>

record channel =
  name :: string
  entries :: "entry list"
  frozen :: bool

definition Channel :: "string \<Rightarrow> channel" where
  "Channel nm = \<lparr>name = nm, entries = [], frozen = False\<rparr>"

text \<open>\<open>self.entries.append(e)\<close>: an AttributeError once the entries are a tuple.\<close>

definition append_entry :: "channel \<Rightarrow> entry \<Rightarrow> error + channel" where
  "append_entry ch e =
     (if frozen ch then Inl AttributeError else Inr (ch\<lparr>entries := entries ch @ [e]\<rparr>))"

definition add :: "channel \<Rightarrow> rat \<Rightarrow> int \<Rightarrow> error + channel" where
  "add ch eventTS eventValue =
     (if length (entries ch) = 0 then append_entry ch (eventTS, eventValue)
      else
        let prev = last (entries ch) in
        if \<not> eventTS > fst prev then Inl AssertionError
        else if eventValue \<noteq> snd prev then append_entry ch (eventTS, eventValue)
        else Inr ch)"

definition finishAdding :: "channel \<Rightarrow> rat \<Rightarrow> error + channel" where
  "finishAdding ch tailLength =
     bind (if tailLength > 0 then
             (if \<not> length (entries ch) > 0 then Inl AssertionError
              else
                let prev = last (entries ch) in
                append_entry ch (fst prev + tailLength, snd prev))
           else Inr ch)
          (\<lambda>ch1. Inr (ch1\<lparr>frozen := True\<rparr>))"




subsection \<open>ChannelCursor\<close>

record cursor =
  cur_entries :: "entry list"
  curIndex :: nat
  curPosition :: rat
  startOfNextEntry :: rat

text \<open>\<open>xs[i]\<close> for a non-negative index: an IndexError out of range.\<close>

definition item :: "'a list \<Rightarrow> nat \<Rightarrow> error + 'a" where
  "item xs i = (if i < length xs then Inr (xs ! i) else Inl IndexError)"

definition getStartOfNextEntry :: "cursor \<Rightarrow> error + rat" where
  "getStartOfNextEntry c =
     (if int (curIndex c) < int (length (cur_entries c)) - 1
      then bind (item (cur_entries c) (curIndex c + 1)) (\<lambda>e. Inr (fst e))
      else bind (item (cur_entries c) (curIndex c)) (\<lambda>e. Inr (fst e)))"




definition isAtEnd :: "cursor \<Rightarrow> bool" where
  "isAtEnd c = (curIndex c \<ge> length (cur_entries c))"


text \<open>
  \<open>advance\<close>: the while loop is the recursion. Each round moves the index one entry on and
  raises when it has left the entries, so the number of entries ahead of the index decreases.
\<close>

function advance :: "cursor \<Rightarrow> rat \<Rightarrow> error + cursor" where
  "advance c advanceBy =
     (if curPosition c + advanceBy \<ge> startOfNextEntry c then
        (if isAtEnd (c\<lparr>curIndex := curIndex c + 1\<rparr>) then Inl ChannelCursorOutOfRangeException
         else
           (case getStartOfNextEntry (c\<lparr>curIndex := curIndex c + 1\<rparr>) of
              Inl e \<Rightarrow> Inl e
            | Inr s \<Rightarrow> advance (c\<lparr>curIndex := curIndex c + 1, startOfNextEntry := s\<rparr>) advanceBy))
      else Inr (c\<lparr>curPosition := curPosition c + advanceBy\<rparr>))"
  by pat_completeness auto
termination
  by (relation "measure (\<lambda>(c, d). length (cur_entries c) - curIndex c)")
     (auto simp: isAtEnd_def)

declare advance.simps [simp del]





subsection \<open>Cursor objects in a store\<close>

text \<open>
  For what a copy of a cursor shares with its original, objects get identities. A store
  is a list of objects and a reference is an index into it; a new object is appended. A
  cursor object holds a reference to the tuple of entries and three values. \<open>fields\<close> reads
  a cursor object, with the entries its reference points to, as a cursor of the
  subsection before.
\<close>

type_synonym ref = nat

record cursor_object =
  self_entries :: ref
  self_curIndex :: nat
  self_curPosition :: rat
  self_startOfNextEntry :: rat

datatype object = Tuple "entry list" | CursorObject cursor_object

type_synonym store = "object list"

definition fields :: "entry list \<Rightarrow> cursor_object \<Rightarrow> cursor" where
  "fields es obj = \<lparr>cur_entries = es, curIndex = self_curIndex obj,
     curPosition = self_curPosition obj, startOfNextEntry = self_startOfNextEntry obj\<rparr>"

text \<open>
  \<open>advance\<close> once more, as it changes the object it is called on: it assigns to the three
  value fields of \<open>self\<close> and to nothing else, and when it raises the assignments made so
  far stay. The result is the object after the call and the exception, if any.
\<close>

function advance_object :: "entry list \<Rightarrow> cursor_object \<Rightarrow> rat \<Rightarrow> cursor_object \<times> error option" where
  "advance_object es obj advanceBy =
     (if self_curPosition obj + advanceBy \<ge> self_startOfNextEntry obj then
        (if isAtEnd (fields es (obj\<lparr>self_curIndex := self_curIndex obj + 1\<rparr>))
         then (obj\<lparr>self_curIndex := self_curIndex obj + 1\<rparr>,
               Some ChannelCursorOutOfRangeException)
         else
           (case getStartOfNextEntry (fields es (obj\<lparr>self_curIndex := self_curIndex obj + 1\<rparr>)) of
              Inl e \<Rightarrow> (obj\<lparr>self_curIndex := self_curIndex obj + 1\<rparr>, Some e)
            | Inr s \<Rightarrow>
                advance_object es
                  (obj\<lparr>self_curIndex := self_curIndex obj + 1, self_startOfNextEntry := s\<rparr>)
                  advanceBy))
      else (obj\<lparr>self_curPosition := self_curPosition obj + advanceBy\<rparr>, None))"
  by pat_completeness auto
termination
  by (relation "measure (\<lambda>(es, obj, d). length es - self_curIndex obj)")
     (auto simp: isAtEnd_def fields_def)

declare advance_object.simps [simp del]

text \<open>
  \<open>copy.copy\<close> makes a new object with the same fields, so the reference to the entries
  is copied and the tuple is not; of a tuple it returns the tuple itself.
\<close>

definition copy_copy :: "store \<Rightarrow> ref \<Rightarrow> error + (store \<times> ref)" where
  "copy_copy s a =
     bind (item s a) (\<lambda>x.
       case x of
         Tuple es \<Rightarrow> Inr (s, a)
       | CursorObject obj \<Rightarrow> Inr (s @ [CursorObject obj], length s))"

text \<open>
  A call \<open>x.advance(advanceBy)\<close> where \<open>x\<close> refers to the object at \<open>a\<close>, and a sequence
  of such calls on the same object, each made whether or not the one before it raised.
\<close>

definition advance_at :: "store \<Rightarrow> ref \<Rightarrow> rat \<Rightarrow> store \<times> error option" where
  "advance_at s a advanceBy =
     (case item s a of
        Inr (CursorObject obj) \<Rightarrow>
          (case item s (self_entries obj) of
             Inr (Tuple es) \<Rightarrow>
               (case advance_object es obj advanceBy of
                  (obj1, r) \<Rightarrow> (s[a := CursorObject obj1], r))
           | _ \<Rightarrow> (s, Some AttributeError))
      | _ \<Rightarrow> (s, Some AttributeError))"

fun advances_at :: "store \<Rightarrow> ref \<Rightarrow> rat list \<Rightarrow> store" where
  "advances_at s a [] = s"
| "advances_at s a (d # ds) = advances_at (fst (advance_at s a d)) a ds"

subsection \<open>The frame recognizer\<close>





subsection \<open>Exceptions in sequence\<close>



lemma bind_Inr [simp]: "bind (Inr x) f = f x"
  by (simp add: bind_def)

lemma bind_Inl [simp]: "bind (Inl e) f = Inl e"
  by (simp add: bind_def)








subsection \<open>Every round of the recognizer moves the cursor on\<close>





section \<open>Properties of the channel\<close>










text \<open>
  Claim C7, as amended. On a channel without entries \<open>finishAdding\<close> fails its assertion
  for every positive tail length. For a tail length of zero or below the assertion is not
  reached: the call succeeds and freezes the empty sequence.
\<close>

theorem finishAdding_empty:
  assumes "entries ch = []"
  shows "finishAdding ch tailLength =
           (if 0 < tailLength then Inl AssertionError else Inr (ch\<lparr>frozen := True\<rparr>))"
  using assms by (simp add: finishAdding_def)

theorem finishAdding_empty_witness:
  "finishAdding (Channel ''UART_TX'') 10 = Inl AssertionError"
  using finishAdding_empty [of "Channel ''UART_TX''" 10] by (simp add: Channel_def)

text \<open>The claim as written fails at tail length 0: the empty channel is finalized.\<close>

theorem finishAdding_empty_counterexample:
  "finishAdding (Channel ''UART_TX'') 0 = Inr \<lparr>name = ''UART_TX'', entries = [], frozen = True\<rparr>"
  by (simp add: finishAdding_def Channel_def)

text \<open>
  Claim C8, as amended. On a channel with entries whose last level is \<open>v\<close>, \<open>add ts v\<close>
  leaves the channel as it is and does not fail when \<open>ts\<close> is greater than the last stored
  timestamp. For any other \<open>ts\<close> it fails: the timestamp is asserted before the level is
  compared.
\<close>

theorem add_same_level:
  assumes "entries ch \<noteq> []" and "snd (last (entries ch)) = v"
  shows "add ch ts v = (if fst (last (entries ch)) < ts then Inr ch else Inl AssertionError)"
  using assms by (simp add: add_def)

theorem add_same_level_witness:
  "add \<lparr>name = ''UART_TX'', entries = [(5, 1)], frozen = False\<rparr> 6 1
     = Inr \<lparr>name = ''UART_TX'', entries = [(5, 1)], frozen = False\<rparr>"
  using add_same_level [of "\<lparr>name = ''UART_TX'', entries = [(5, 1)], frozen = False\<rparr>" 1 6]
  by simp

text \<open>The claim as written fails when the same level comes with the same timestamp.\<close>

theorem add_same_level_counterexample:
  "add \<lparr>name = ''UART_TX'', entries = [(5, 1)], frozen = False\<rparr> 5 1 = Inl AssertionError"
  by (simp add: add_def)

section \<open>How the recognizer ends\<close>


















section \<open>Properties of the cursor\<close>


















section \<open>Decoding one byte\<close>







section \<open>The look-ahead on the start bit\<close>














section \<open>A copy of a cursor\<close>

lemma advance_object_entries:
  "self_entries (fst (advance_object es obj d)) = self_entries obj"
proof (induction es obj d rule: advance_object.induct)
  case (1 es obj d)
  then show ?case
    by (subst advance_object.simps) (simp split: sum.splits)
qed

lemma advance_object_advance:
  "advance (fields es obj) d =
     (case advance_object es obj d of
        (obj1, None) \<Rightarrow> Inr (fields es obj1)
      | (obj1, Some e) \<Rightarrow> Inl e)"
proof (induction es obj d rule: advance_object.induct)
  case (1 es obj d)
  let ?obj1 = "obj\<lparr>self_curIndex := self_curIndex obj + 1\<rparr>"
  show ?case
  proof (cases "self_curPosition obj + d \<ge> self_startOfNextEntry obj")
    case False
    then show ?thesis
      by (subst advance.simps, subst advance_object.simps) (simp add: fields_def)
  next
    case cross: True
    show ?thesis
    proof (cases "isAtEnd (fields es ?obj1)")
      case True
      with cross show ?thesis
        by (subst advance.simps, subst advance_object.simps) (simp add: fields_def)
    next
      case inside: False
      show ?thesis
      proof (cases "getStartOfNextEntry (fields es ?obj1)")
        case (Inl e)
        with cross inside show ?thesis
          by (subst advance.simps, subst advance_object.simps) (simp add: fields_def)
      next
        case (Inr s)
        from "1.IH" [OF cross inside Inr]
        have "advance (fields es (?obj1\<lparr>self_startOfNextEntry := s\<rparr>)) d =
          (case advance_object es (?obj1\<lparr>self_startOfNextEntry := s\<rparr>) d of
             (obj1, None) \<Rightarrow> Inr (fields es obj1) | (obj1, Some e) \<Rightarrow> Inl e)"
          by simp
        moreover have "advance (fields es obj) d
            = advance (fields es (?obj1\<lparr>self_startOfNextEntry := s\<rparr>)) d"
          using cross inside Inr by (subst advance.simps) (simp add: fields_def)
        moreover have "advance_object es obj d
            = advance_object es (?obj1\<lparr>self_startOfNextEntry := s\<rparr>) d"
          using cross inside Inr by (subst advance_object.simps) simp
        ultimately show ?thesis by simp
      qed
    qed
  qed
qed

lemma advance_at_frame:
  "length (fst (advance_at s a d)) = length s"
  "b \<noteq> a \<Longrightarrow> fst (advance_at s a d) ! b = s ! b"
  by (auto simp: advance_at_def split: sum.splits object.splits prod.splits)

lemma advance_at_cursor:
  assumes "a < length s" and "s ! a = CursorObject obj"
  shows "\<exists>obj1. fst (advance_at s a d) ! a = CursorObject obj1 \<and>
           self_entries obj1 = self_entries obj"
proof (cases "item s (self_entries obj)")
  case (Inl e)
  with assms show ?thesis by (simp add: advance_at_def item_def)
next
  case (Inr x)
  show ?thesis
  proof (cases x)
    case (Tuple es)
    with Inr assms advance_object_entries [of es obj d] show ?thesis
      by (auto simp: advance_at_def item_def split: prod.splits)
  next
    case (CursorObject y)
    with Inr assms show ?thesis by (simp add: advance_at_def item_def)
  qed
qed

lemma advances_at_frame:
  "length (advances_at s a ds) = length s"
  "b \<noteq> a \<Longrightarrow> advances_at s a ds ! b = s ! b"
  by (induction ds arbitrary: s) (simp_all add: advance_at_frame)

lemma advances_at_cursor:
  "a < length s \<Longrightarrow> s ! a = CursorObject obj \<Longrightarrow>
   \<exists>obj1. advances_at s a ds ! a = CursorObject obj1 \<and> self_entries obj1 = self_entries obj"
proof (induction ds arbitrary: s obj)
  case Nil
  then show ?case by simp
next
  case (Cons d ds)
  from advance_at_cursor [OF Cons.prems, of d] obtain obj1 where
    o1: "fst (advance_at s a d) ! a = CursorObject obj1" and e1: "self_entries obj1 = self_entries obj"
    by blast
  from Cons.prems(1) have "a < length (fst (advance_at s a d))" by (simp add: advance_at_frame)
  from Cons.IH [OF this o1] e1 show ?case by simp
qed

text \<open>
  Claim C9. Let a store hold a cursor object at \<open>a\<close> whose reference to the entries points
  into the store. \<open>copy.copy\<close> of it gives a new object at another reference. After any
  sequence of \<open>advance\<close> calls on the copy, the object at \<open>a\<close> is what it was, with its
  index, position and next boundary; the copy still holds the same reference to the
  entries as the original; and the object that reference points to is unchanged.
\<close>

theorem clone_leaves_original:
  assumes "a < length s" and "s ! a = CursorObject obj" and "self_entries obj < length s"
  shows "\<exists>s1 p. copy_copy s a = Inr (s1, p) \<and> p \<noteq> a \<and>
           advances_at s1 p ds ! a = CursorObject obj \<and>
           (\<exists>obj1. advances_at s1 p ds ! p = CursorObject obj1 \<and>
                    self_entries obj1 = self_entries obj) \<and>
           advances_at s1 p ds ! self_entries obj = s ! self_entries obj"
proof -
  let ?s1 = "s @ [CursorObject obj]"
  let ?p = "length s"
  from assms have c: "copy_copy s a = Inr (?s1, ?p)"
    by (simp add: copy_copy_def item_def)
  from assms(1) have ne: "?p \<noteq> a" by simp
  from assms(1,2) advances_at_frame(2) [of a ?p ?s1 ds]
  have orig: "advances_at ?s1 ?p ds ! a = CursorObject obj" by (simp add: nth_append)
  have "?p < length ?s1" and "?s1 ! ?p = CursorObject obj" by simp_all
  from advances_at_cursor [OF this]
  have clone: "\<exists>obj1. advances_at ?s1 ?p ds ! ?p = CursorObject obj1 \<and>
      self_entries obj1 = self_entries obj" .
  from assms(3) advances_at_frame(2) [of "self_entries obj" ?p ?s1 ds]
  have tup: "advances_at ?s1 ?p ds ! self_entries obj = s ! self_entries obj"
    by (simp add: nth_append)
  from c ne orig clone tup show ?thesis by blast
qed

theorem clone_leaves_original_witness:
  "\<exists>s1 p. copy_copy
        [Tuple [(0, 1), (1, 0), (11, 0)],
         CursorObject \<lparr>self_entries = 0, self_curIndex = 0, self_curPosition = 0,
           self_startOfNextEntry = 1\<rparr>] 1 = Inr (s1, p) \<and> p \<noteq> 1 \<and>
      advances_at s1 p [3 / 2, 20] ! 1
        = CursorObject \<lparr>self_entries = 0, self_curIndex = 0, self_curPosition = 0,
            self_startOfNextEntry = 1\<rparr> \<and>
      (\<exists>obj1. advances_at s1 p [3 / 2, 20] ! p = CursorObject obj1 \<and> self_entries obj1 = 0) \<and>
      advances_at s1 p [3 / 2, 20] ! 0 = Tuple [(0, 1), (1, 0), (11, 0)]"
  using clone_leaves_original [of 1
      "[Tuple [(0, 1), (1, 0), (11, 0)],
        CursorObject \<lparr>self_entries = 0, self_curIndex = 0, self_curPosition = 0,
          self_startOfNextEntry = 1\<rparr>]"
      "\<lparr>self_entries = 0, self_curIndex = 0, self_curPosition = 0, self_startOfNextEntry = 1\<rparr>"
      "[3 / 2, 20]"]
  by simp

end
